theory Spec2Isabelle
  imports Complex_Main "HOL-Library.Multiset"
begin


section \<open>The problem instance\<close>

text \<open>
  \<^verbatim>\<open>Problem\<close> (Problem.cc) holds the instance: the counts, the horizon, and the arrays
  \<^verbatim>\<open>nsuccessors\<close>, \<^verbatim>\<open>successors\<close>, \<^verbatim>\<open>predecessors\<close> (one \<^verbatim>\<open>std::vector<int>\<close> per job),
  \<^verbatim>\<open>durations\<close>, \<^verbatim>\<open>requests[job][k][t]\<close> and \<^verbatim>\<open>capacities[k][t]\<close>.
  Counts and job or resource numbers are array sizes and array positions and are kept as
  naturals; every time, duration, demand and capacity is an \<^verbatim>\<open>int\<close> of the source and is kept
  as an integer (32-bit overflow is not modelled: the quantities are assumed to fit).
\<close>

record problem =
  njobs :: nat
  horizon :: int
  nresources :: nat
  nsuccessors :: "nat list"
  successors :: "nat list list"
  predecessors :: "nat list list"
  durations :: "int list"
  requests :: "int list list list"
  capacities :: "int list list"

subsection \<open>Outcomes and array reads\<close>

text \<open>
  A step of the solver either goes on with a value, or makes \<^verbatim>\<open>solve\<close> execute
  \<^verbatim>\<open>return false\<close>, or touches an array outside its bounds (undefined in C++).
\<close>

datatype 'a res = Ok 'a | ReturnFalse | Fault

fun rbind :: "'a res \<Rightarrow> ('a \<Rightarrow> 'b res) \<Rightarrow> 'b res" where
  "rbind (Ok x) f = f x"
| "rbind ReturnFalse f = ReturnFalse"
| "rbind Fault f = Fault"

fun chk :: "'a option \<Rightarrow> 'a res" where
  "chk None = Fault"
| "chk (Some x) = Ok x"

definition rd :: "'a list \<Rightarrow> nat \<Rightarrow> 'a option" where
  "rd xs i = (if i < length xs then Some (xs ! i) else None)"

definition rdi :: "'a list \<Rightarrow> int \<Rightarrow> 'a option" where
  "rdi xs i = (if 0 \<le> i \<and> i < int (length xs) then Some (xs ! nat i) else None)"

definition req_at :: "problem \<Rightarrow> nat \<Rightarrow> nat \<Rightarrow> nat \<Rightarrow> int option" where
  "req_at P j k t =
     (case rd (requests P) j of None \<Rightarrow> None
      | Some a \<Rightarrow> (case rd a k of None \<Rightarrow> None | Some b \<Rightarrow> rd b t))"

definition grid_at :: "int list list \<Rightarrow> nat \<Rightarrow> int \<Rightarrow> int option" where
  "grid_at g k i = (case rd g k of None \<Rightarrow> None | Some row \<Rightarrow> rdi row i)"

subsection \<open>The feasibility scan\<close>

text \<open>
  The two nested \<^verbatim>\<open>for\<close> loops that look for a cell with
  \<^verbatim>\<open>requests[job][k][t] > grid[k][base + t]\<close> and leave at the first one found. The cells are
  given in the order the loops visit them; \<open>Some True\<close> is \<^verbatim>\<open>feasible\<close> still true at the end,
  \<open>Some False\<close> a violation, \<open>None\<close> a read out of bounds.
\<close>

fun scan :: "problem \<Rightarrow> int list list \<Rightarrow> nat \<Rightarrow> int \<Rightarrow> (nat \<times> nat) list \<Rightarrow> bool option" where
  "scan P g job base [] = Some True"
| "scan P g job base ((k, t) # cs) =
     (case req_at P job k t of None \<Rightarrow> None
      | Some r \<Rightarrow>
         (case grid_at g k (base + int t) of None \<Rightarrow> None
          | Some a \<Rightarrow> if r > a then Some False else scan P g job base cs))"

definition cells_down :: "nat \<Rightarrow> int \<Rightarrow> (nat \<times> nat) list" where
  "cells_down nres dur = List.product [0..<nres] (rev [0..<nat dur])"

definition cells_up :: "nat \<Rightarrow> int \<Rightarrow> (nat \<times> nat) list" where
  "cells_up nres dur = List.product [0..<nres] [0..<nat dur]"

text \<open>
  \<^verbatim>\<open>while (!feasibleFinal)\<close> of the earliest-finish pass and of the placement in a tournament
  pass (Solver.cc 66-82 and 235-259): a violation moves the finish one period later, and the
  finish is compared with the horizon after every scan.
\<close>

function move_finish :: "problem \<Rightarrow> int list list \<Rightarrow> nat \<Rightarrow> int \<Rightarrow> int \<Rightarrow> int res" where
  "move_finish P g job dur fin =
     (case scan P g job (fin - dur) (cells_down (nresources P) dur) of
        None \<Rightarrow> Fault
      | Some True \<Rightarrow> (if fin > horizon P then ReturnFalse else Ok fin)
      | Some False \<Rightarrow>
          (if fin + 1 > horizon P then ReturnFalse else move_finish P g job dur (fin + 1)))"
  by pat_completeness auto
termination
  by (relation "measure (\<lambda>(P, g, job, dur, fin). nat (horizon P - fin))") auto

text \<open>The same loop of the latest-start pass (Solver.cc 107-124), moving the start earlier.\<close>

function move_start :: "problem \<Rightarrow> nat \<Rightarrow> int \<Rightarrow> int \<Rightarrow> int res" where
  "move_start P job dur st =
     (case scan P (capacities P) job st (cells_up (nresources P) dur) of
        None \<Rightarrow> Fault
      | Some True \<Rightarrow> (if st < 0 then ReturnFalse else Ok st)
      | Some False \<Rightarrow> (if st - 1 < 0 then ReturnFalse else move_start P job dur (st - 1)))"
  by pat_completeness auto
termination
  by (relation "measure (\<lambda>(P, job, dur, st). nat st)") auto

section \<open>Preprocessing\<close>

subsection \<open>Earliest feasible finish times\<close>

text \<open>
  Solver.cc 84-90, for the successors \<^verbatim>\<open>successors[job][i]\<close>, \<open>i\<close> below \<^verbatim>\<open>nsuccessors[job]\<close>:
  raise the successor's finish to \<^verbatim>\<open>ef[job] + durations[successor]\<close> and enqueue it.
\<close>

fun ef_succs :: "problem \<Rightarrow> nat \<Rightarrow> nat list \<Rightarrow> int list \<times> nat list \<Rightarrow> (int list \<times> nat list) res" where
  "ef_succs P job [] (ef, q) = Ok (ef, q)"
| "ef_succs P job (i # is) (ef, q) =
     rbind (chk (rd (successors P) job)) (\<lambda>row.
     rbind (chk (rd row i)) (\<lambda>s.
     rbind (chk (rd ef job)) (\<lambda>e.
     rbind (chk (rd (durations P) s)) (\<lambda>ds.
     rbind (chk (rd ef s)) (\<lambda>es.
       ef_succs P job is ((if e + ds > es then ef[s := e + ds] else ef), q @ [s]))))))"

text \<open>One turn of the \<^verbatim>\<open>while (!q.empty())\<close> loop, after \<^verbatim>\<open>job\<close> has been popped.\<close>

definition ef_visit :: "problem \<Rightarrow> nat \<Rightarrow> int list \<times> nat list \<Rightarrow> (int list \<times> nat list) res" where
  "ef_visit P job = (\<lambda>(ef, q).
     rbind (chk (rd (durations P) job)) (\<lambda>dur.
     rbind (chk (rd ef job)) (\<lambda>e.
     rbind (move_finish P (capacities P) job dur e) (\<lambda>e'.
     rbind (chk (rd (nsuccessors P) job)) (\<lambda>ns.
       ef_succs P job [0..<ns] (ef[job := e'], q))))))"

text \<open>
  The breadth-first loop. It need not end on a graph with a cycle, so the result is an
  option: \<open>None\<close> is a loop that runs forever.
\<close>

partial_function (option) ef_loop :: "problem \<Rightarrow> int list \<Rightarrow> nat list \<Rightarrow> int list res option" where
  "ef_loop P ef q =
     (case q of
        [] \<Rightarrow> Some (Ok ef)
      | job # q' \<Rightarrow>
          (case ef_visit P job (ef, q') of
             Ok (ef', q'') \<Rightarrow> ef_loop P ef' q''
           | ReturnFalse \<Rightarrow> Some ReturnFalse
           | Fault \<Rightarrow> Some Fault))"

declare ef_loop.simps [code]

definition ef_pass :: "problem \<Rightarrow> int list res option" where
  "ef_pass P = ef_loop P (replicate (njobs P) 0) [0]"

subsection \<open>Latest feasible start times\<close>

fun ls_preds :: "problem \<Rightarrow> nat \<Rightarrow> nat list \<Rightarrow> int list \<times> nat list \<Rightarrow> (int list \<times> nat list) res" where
  "ls_preds P job [] (ls, q) = Ok (ls, q)"
| "ls_preds P job (p # ps) (ls, q) =
     rbind (chk (rd ls job)) (\<lambda>l.
     rbind (chk (rd (durations P) p)) (\<lambda>dp.
     rbind (chk (rd ls p)) (\<lambda>lp.
       ls_preds P job ps ((if l - dp < lp then ls[p := l - dp] else ls), q @ [p]))))"

definition ls_visit :: "problem \<Rightarrow> nat \<Rightarrow> int list \<times> nat list \<Rightarrow> (int list \<times> nat list) res" where
  "ls_visit P job = (\<lambda>(ls, q).
     rbind (chk (rd (durations P) job)) (\<lambda>dur.
     rbind (chk (rd ls job)) (\<lambda>l.
     rbind (move_start P job dur l) (\<lambda>l'.
     rbind (chk (rd (predecessors P) job)) (\<lambda>ps.
       ls_preds P job ps (ls[job := l'], q))))))"

partial_function (option) ls_loop :: "problem \<Rightarrow> int list \<Rightarrow> nat list \<Rightarrow> int list res option" where
  "ls_loop P ls q =
     (case q of
        [] \<Rightarrow> Some (Ok ls)
      | job # q' \<Rightarrow>
          (case ls_visit P job (ls, q') of
             Ok (ls', q'') \<Rightarrow> ls_loop P ls' q''
           | ReturnFalse \<Rightarrow> Some ReturnFalse
           | Fault \<Rightarrow> Some Fault))"

text \<open>\<^verbatim>\<open>q.push(problem.njobs - 1)\<close>: with no job at all the \<^verbatim>\<open>int\<close> pushed is \<open>-1\<close>.\<close>

declare ls_loop.simps [code]

definition ls_pass :: "problem \<Rightarrow> int list res option" where
  "ls_pass P =
     (if njobs P = 0 then Some Fault
      else ls_loop P (replicate (njobs P) (horizon P)) [njobs P - 1])"

subsection \<open>Doubles\<close>

text \<open>
  \<^verbatim>\<open>ru\<close> and \<^verbatim>\<open>cpru\<close> are arrays of \<^verbatim>\<open>double\<close>, and the source tests \<^verbatim>\<open>std::isnan\<close>. A double is
  modelled as a real or one of the three special values of IEEE 754. The special values follow
  IEEE 754; finite values are computed exactly (rounding, overflow to an infinity and the
  sign of zero are not modelled; every zero divisor of the source is a converted \<^verbatim>\<open>int\<close>, a
  positive zero).
\<close>

datatype double = Fin real | PInf | NInf | NaN

definition d_of_int :: "int \<Rightarrow> double" where
  "d_of_int i = Fin (of_int i)"

fun dmul :: "double \<Rightarrow> double \<Rightarrow> double" where
  "dmul (Fin a) (Fin b) = Fin (a * b)"
| "dmul (Fin a) PInf = (if a = 0 then NaN else if 0 < a then PInf else NInf)"
| "dmul (Fin a) NInf = (if a = 0 then NaN else if 0 < a then NInf else PInf)"
| "dmul PInf (Fin b) = (if b = 0 then NaN else if 0 < b then PInf else NInf)"
| "dmul NInf (Fin b) = (if b = 0 then NaN else if 0 < b then NInf else PInf)"
| "dmul PInf PInf = PInf"
| "dmul PInf NInf = NInf"
| "dmul NInf PInf = NInf"
| "dmul NInf NInf = PInf"
| "dmul NaN y = NaN"
| "dmul x NaN = NaN"

fun ddiv :: "double \<Rightarrow> double \<Rightarrow> double" where
  "ddiv (Fin a) (Fin b) =
     (if b \<noteq> 0 then Fin (a / b) else if a = 0 then NaN else if 0 < a then PInf else NInf)"
| "ddiv (Fin a) PInf = Fin 0"
| "ddiv (Fin a) NInf = Fin 0"
| "ddiv PInf (Fin b) = (if 0 \<le> b then PInf else NInf)"
| "ddiv NInf (Fin b) = (if 0 \<le> b then NInf else PInf)"
| "ddiv PInf PInf = NaN"
| "ddiv PInf NInf = NaN"
| "ddiv NInf PInf = NaN"
| "ddiv NInf NInf = NaN"
| "ddiv NaN y = NaN"
| "ddiv x NaN = NaN"

fun dadd :: "double \<Rightarrow> double \<Rightarrow> double" where
  "dadd (Fin a) (Fin b) = Fin (a + b)"
| "dadd (Fin a) PInf = PInf"
| "dadd (Fin a) NInf = NInf"
| "dadd PInf (Fin b) = PInf"
| "dadd NInf (Fin b) = NInf"
| "dadd PInf PInf = PInf"
| "dadd PInf NInf = NaN"
| "dadd NInf PInf = NaN"
| "dadd NInf NInf = NInf"
| "dadd NaN y = NaN"
| "dadd x NaN = NaN"


fun dlt :: "double \<Rightarrow> double \<Rightarrow> bool" where
  "dlt (Fin a) (Fin b) = (a < b)"
| "dlt (Fin a) PInf = True"
| "dlt (Fin a) NInf = False"
| "dlt PInf (Fin b) = False"
| "dlt NInf (Fin b) = True"
| "dlt PInf PInf = False"
| "dlt PInf NInf = False"
| "dlt NInf PInf = True"
| "dlt NInf NInf = False"
| "dlt NaN y = False"
| "dlt x NaN = False"

fun d_isnan :: "double \<Rightarrow> bool" where
  "d_isnan NaN = True"
| "d_isnan x = False"

definition OMEGA1 :: double where
  "OMEGA1 = Fin (4 / 10)"

definition OMEGA2 :: double where
  "OMEGA2 = Fin (6 / 10)"

subsection \<open>Extended resource utilisation\<close>

fun sum_reads :: "('a \<Rightarrow> int option) \<Rightarrow> 'a list \<Rightarrow> int \<Rightarrow> int option" where
  "sum_reads f [] acc = Some acc"
| "sum_reads f (x # xs) acc =
     (case f x of None \<Rightarrow> None | Some v \<Rightarrow> sum_reads f xs (acc + v))"

text \<open>
  Solver.cc 146-152: \<^verbatim>\<open>demand\<close> and \<^verbatim>\<open>availability\<close>, accumulated resource by resource; the
  window of \<^verbatim>\<open>availability\<close> runs from \<^verbatim>\<open>ef[job] - duration\<close> up to \<^verbatim>\<open>ls[job] + duration - 1\<close>.
\<close>

fun ru_sums :: "problem \<Rightarrow> int list \<Rightarrow> int list \<Rightarrow> nat \<Rightarrow> int \<Rightarrow> nat list \<Rightarrow> int \<times> int \<Rightarrow> (int \<times> int) option" where
  "ru_sums P ef ls job dur [] (d, a) = Some (d, a)"
| "ru_sums P ef ls job dur (k # ks) (d, a) =
     (case sum_reads (req_at P job k) [0..<nat dur] d of None \<Rightarrow> None
      | Some d' \<Rightarrow>
         (case rd ef job of None \<Rightarrow> None
          | Some e \<Rightarrow>
             (case rd ls job of None \<Rightarrow> None
              | Some l \<Rightarrow>
                 (case sum_reads (grid_at (capacities P) k) [e - dur..l + dur - 1] a of
                    None \<Rightarrow> None
                  | Some a' \<Rightarrow> ru_sums P ef ls job dur ks (d', a')))))"

text \<open>
  Solver.cc 157-158: \<^verbatim>\<open>for (successor = 0; successor < nsuccessors[job]; successor++)
  ru[job] += OMEGA2 * ru[successor]\<close>. The loop variable itself is the position read in
  \<^verbatim>\<open>ru\<close>.
\<close>

fun ru_succs :: "double list \<Rightarrow> nat \<Rightarrow> nat list \<Rightarrow> double list option" where
  "ru_succs ru job [] = Some ru"
| "ru_succs ru job (i # is) =
     (case rd ru job of None \<Rightarrow> None
      | Some x \<Rightarrow>
         (case rd ru i of None \<Rightarrow> None
          | Some y \<Rightarrow> ru_succs (ru[job := dadd x (dmul OMEGA2 y)]) job is))"

definition ru_base :: "nat \<Rightarrow> nat \<Rightarrow> int \<Rightarrow> int \<Rightarrow> double" where
  "ru_base ns nres demand availability =
     dmul OMEGA1 (dmul (ddiv (d_of_int (int ns)) (d_of_int (int nres)))
                       (ddiv (d_of_int demand) (d_of_int availability)))"

definition clamp :: "double \<Rightarrow> double" where
  "clamp x = (if d_isnan x \<or> dlt x (Fin 0) then Fin 0 else x)"

definition ru_visit :: "problem \<Rightarrow> int list \<Rightarrow> int list \<Rightarrow> nat \<Rightarrow> double list \<times> nat list \<Rightarrow> (double list \<times> nat list) res" where
  "ru_visit P ef ls job = (\<lambda>(ru, q).
     rbind (chk (rd (durations P) job)) (\<lambda>dur.
     rbind (chk (ru_sums P ef ls job dur [0..<nresources P] (0, 0))) (\<lambda>(demand, availability).
     rbind (chk (rd (nsuccessors P) job)) (\<lambda>ns.
     if job < length ru then
       rbind (chk (ru_succs (ru[job := ru_base ns (nresources P) demand availability]) job [0..<ns])) (\<lambda>ru'.
       rbind (chk (rd ru' job)) (\<lambda>x.
       rbind (chk (rd (predecessors P) job)) (\<lambda>ps.
         Ok (ru'[job := clamp x], q @ ps))))
     else Fault))))"

partial_function (option) ru_loop :: "problem \<Rightarrow> int list \<Rightarrow> int list \<Rightarrow> double list \<Rightarrow> nat list \<Rightarrow> double list res option" where
  "ru_loop P ef ls ru q =
     (case q of
        [] \<Rightarrow> Some (Ok ru)
      | job # q' \<Rightarrow>
          (case ru_visit P ef ls job (ru, q') of
             Ok (ru', q'') \<Rightarrow> ru_loop P ef ls ru' q''
           | ReturnFalse \<Rightarrow> Some ReturnFalse
           | Fault \<Rightarrow> Some Fault))"

text \<open>
  \<^verbatim>\<open>new double[problem.njobs]\<close> does not initialise the array: what it holds at first is an
  input of the model, \<open>ru0\<close>.
\<close>

declare ru_loop.simps [code]

definition ru_pass :: "problem \<Rightarrow> int list \<Rightarrow> int list \<Rightarrow> (nat \<Rightarrow> double) \<Rightarrow> double list res option" where
  "ru_pass P ef ls ru0 =
     (if njobs P = 0 then Some Fault
      else ru_loop P ef ls (map ru0 [0..<njobs P]) [njobs P - 1])"

subsection \<open>The CPRU priority\<close>


section \<open>The tournament passes\<close>


subsection \<open>The eligible jobs\<close>



subsection \<open>Sampling and the winner\<close>






subsection \<open>Placing the winner\<close>







subsection \<open>A pass, and all of them\<close>





text \<open>\<^verbatim>\<open>INT32_MAX / 2\<close>, the makespan before any pass.\<close>

definition no_makespan :: int where
  "no_makespan = 1073741823"


section \<open>PrSolver::solve\<close>



section \<open>Instances used to exercise the theorems\<close>

text \<open>
  A chain \<open>0 \<rightarrow> 1 \<rightarrow> 2\<close> with one resource of capacity \<open>0, 1, 1, 0, \<dots>\<close> and one real job of
  two periods that needs one unit in both: it can only run in periods 1 and 2.
\<close>

definition inst_varying :: "int \<Rightarrow> problem" where
  "inst_varying h =
     \<lparr> njobs = 3, horizon = h, nresources = 1, nsuccessors = [1, 1, 0],
       successors = [[1], [2], []], predecessors = [[], [0], [1]], durations = [0, 2, 0],
       requests = [[[]], [[1, 1]], [[]]],
       capacities = [take (nat h) [0, 1, 1, 0, 0, 0, 0, 0]] \<rparr>"



text \<open>
  A diamond \<open>0 \<rightarrow> {1, 2} \<rightarrow> 3\<close>: two jobs of three periods that both need the one unit of a
  resource of constant capacity 1, horizon 8.
\<close>

definition inst_diamond :: problem where
  "inst_diamond =
     \<lparr> njobs = 4, horizon = 8, nresources = 1, nsuccessors = [2, 1, 1, 0],
       successors = [[1, 2], [3], [3], []], predecessors = [[], [0], [0], [1, 2]],
       durations = [0, 3, 3, 0],
       requests = [[[]], [[1, 1, 1]], [[1, 1, 1]], [[]]],
       capacities = [[1, 1, 1, 1, 1, 1, 1, 1]] \<rparr>"


section \<open>The precedence relation\<close>

text \<open>\<open>(p, j)\<close>: job \<open>p\<close> is listed in \<^verbatim>\<open>predecessors[j]\<close>.\<close>

definition prec_rel :: "problem \<Rightarrow> (nat \<times> nat) set" where
  "prec_rel P = {(p, j). j < njobs P \<and> p \<in> set (predecessors P ! j)}"

text \<open>\<open>(j, s)\<close>: job \<open>s\<close> is one of the first \<^verbatim>\<open>nsuccessors[j]\<close> entries of \<^verbatim>\<open>successors[j]\<close>.\<close>

definition succ_rel :: "problem \<Rightarrow> (nat \<times> nat) set" where
  "succ_rel P = {(j, s). j < njobs P \<and> (\<exists>i<nsuccessors P ! j. s = successors P ! j ! i)}"

section \<open>The data model\<close>

text \<open>
  What the specification requires of a Problem: at least two jobs, a positive horizon, arrays
  of the sizes the constructor and the parser give them, \<^verbatim>\<open>predecessors\<close> the converse of
  \<^verbatim>\<open>successors\<close>, durations, demands and capacities that are not negative, a source 0 and a
  sink \<open>njobs - 1\<close> of duration zero, and an acyclic precedence relation in which the source is
  above every other job and the sink below.
\<close>

definition wf_problem :: "problem \<Rightarrow> bool" where
  "wf_problem P \<longleftrightarrow>
     2 \<le> njobs P \<and> 0 < horizon P \<and>
     length (nsuccessors P) = njobs P \<and> length (successors P) = njobs P \<and>
     length (predecessors P) = njobs P \<and> length (durations P) = njobs P \<and>
     length (requests P) = njobs P \<and> length (capacities P) = nresources P \<and>
     (\<forall>j<njobs P. nsuccessors P ! j = length (successors P ! j)) \<and>
     (\<forall>j<njobs P. \<forall>p\<in>set (predecessors P ! j). p < njobs P) \<and>
     succ_rel P = prec_rel P \<and>
     (\<forall>j<njobs P. 0 \<le> durations P ! j) \<and>
     durations P ! 0 = 0 \<and> durations P ! (njobs P - 1) = 0 \<and>
     (\<forall>j<njobs P. length (requests P ! j) = nresources P \<and>
        (\<forall>k<nresources P. length (requests P ! j ! k) = nat (durations P ! j) \<and>
           (\<forall>r\<in>set (requests P ! j ! k). 0 \<le> r))) \<and>
     (\<forall>k<nresources P. length (capacities P ! k) = nat (horizon P) \<and>
        (\<forall>c\<in>set (capacities P ! k). 0 \<le> c)) \<and>
     acyclic (prec_rel P) \<and>
     (\<forall>j<njobs P. j \<noteq> 0 \<longrightarrow> (0, j) \<in> (prec_rel P)\<^sup>+) \<and>
     (\<forall>j<njobs P. j \<noteq> njobs P - 1 \<longrightarrow> (j, njobs P - 1) \<in> (prec_rel P)\<^sup>+)"

section \<open>What a schedule has to satisfy\<close>





section \<open>The utilisation formula as the specification words it\<close>

text \<open>
  \<open>ru[j] = \<omega>\<^sub>1 \<cdot> (n_successors[j] / n_resources) \<cdot> (demand\<^sub>j / availability\<^sub>j) + \<omega>\<^sub>2 \<cdot> \<Sum> ru[s]\<close>, the sum
  over the successors \<open>s\<close> of \<open>j\<close>; a NaN or negative result is replaced by 0.
\<close>

definition demand_of :: "problem \<Rightarrow> nat \<Rightarrow> int" where
  "demand_of P j =
     (\<Sum>k\<leftarrow>[0..<nresources P]. \<Sum>t\<leftarrow>[0..<nat (durations P ! j)]. requests P ! j ! k ! t)"

definition availability_of :: "problem \<Rightarrow> int list \<Rightarrow> int list \<Rightarrow> nat \<Rightarrow> int" where
  "availability_of P ef ls j =
     (\<Sum>k\<leftarrow>[0..<nresources P].
        \<Sum>t\<leftarrow>[ef ! j - durations P ! j..ls ! j + durations P ! j - 1]. capacities P ! k ! nat t)"

definition ru_claimed :: "problem \<Rightarrow> int list \<Rightarrow> int list \<Rightarrow> double list \<Rightarrow> nat \<Rightarrow> double" where
  "ru_claimed P ef ls ru j =
     clamp (dadd (ru_base (nsuccessors P ! j) (nresources P) (demand_of P j) (availability_of P ef ls j))
       (dmul OMEGA2 (foldr dadd (map (\<lambda>s. ru ! s) (take (nsuccessors P ! j) (successors P ! j))) (Fin 0))))"


section \<open>The state of a pass between two steps\<close>





text \<open>
  A chain whose one real job lasts \<open>INT32_MAX / 2\<close> periods, the horizon. It requests two
  units of the resource in its first period and one in every other, which is exactly the
  capacity when it starts at 0.
\<close>

definition huge_row :: "int list" where
  "huge_row = 2 # replicate (nat no_makespan - 1) 1"

definition inst_huge :: problem where
  "inst_huge =
     \<lparr> njobs = 3, horizon = no_makespan, nresources = 1, nsuccessors = [1, 1, 0],
       successors = [[1], [2], []], predecessors = [[], [0], [1]],
       durations = [0, no_makespan, 0],
       requests = [[[]], [huge_row], [[]]],
       capacities = [huge_row] \<rparr>"

section \<open>Reading the outcomes\<close>

declare move_finish.simps [simp del] move_start.simps [simp del]



lemma rbind_Ok: "rbind m f = Ok y \<longleftrightarrow> (\<exists>x. m = Ok x \<and> f x = Ok y)"
  by (cases m) auto

lemma chk_Ok: "chk v = Ok x \<longleftrightarrow> v = Some x"
  by (cases v) auto

lemma rd_Some: "rd xs i = Some x \<longleftrightarrow> i < length xs \<and> xs ! i = x"
  by (auto simp: rd_def)



lemma scan_False:
  "scan P g job base cs = Some False \<Longrightarrow>
   \<exists>k t r a. (k, t) \<in> set cs \<and> req_at P job k t = Some r \<and>
     grid_at g k (base + int t) = Some a \<and> a < r"
proof (induction cs)
  case Nil
  then show ?case by simp
next
  case (Cons c cs)
  obtain k t where c: "c = (k, t)" by (cases c)
  from Cons.prems c obtain r a where ra: "req_at P job k t = Some r" "grid_at g k (base + int t) = Some a"
    by (auto split: option.splits)
  show ?case
  proof (cases "a < r")
    case True
    with ra c show ?thesis by (intro exI[of _ k] exI[of _ t] exI[of _ r] exI[of _ a]) simp
  next
    case False
    with Cons.prems c ra have "scan P g job base cs = Some False" by simp
    from Cons.IH[OF this] show ?thesis by auto
  qed
qed

lemma move_finish_Ok:
  "move_finish P g job dur fin = Ok f \<Longrightarrow>
   fin \<le> f \<and> f \<le> horizon P \<and>
   scan P g job (f - dur) (cells_down (nresources P) dur) = Some True \<and>
   (\<forall>f'. fin \<le> f' \<and> f' < f \<longrightarrow>
      scan P g job (f' - dur) (cells_down (nresources P) dur) = Some False)"
proof (induction P g job dur fin rule: move_finish.induct)
  case (1 P g job dur fin)
  show ?case
  proof (cases "scan P g job (fin - dur) (cells_down (nresources P) dur)")
    case None
    with "1.prems" show ?thesis by (simp add: move_finish.simps[of P g job dur fin])
  next
    case (Some b)
    show ?thesis
    proof (cases b)
      case True
      with Some "1.prems" show ?thesis
        by (auto simp add: move_finish.simps[of P g job dur fin] split: if_splits)
    next
      case False
      with Some "1.prems" have *: "\<not> fin + 1 > horizon P" "move_finish P g job dur (fin + 1) = Ok f"
        by (simp_all add: move_finish.simps[of P g job dur fin] split: if_splits)
      have IH: "fin + 1 \<le> f \<and> f \<le> horizon P \<and>
        scan P g job (f - dur) (cells_down (nresources P) dur) = Some True \<and>
        (\<forall>f'. fin + 1 \<le> f' \<and> f' < f \<longrightarrow>
           scan P g job (f' - dur) (cells_down (nresources P) dur) = Some False)"
        using "1.IH" Some False * by simp
      have "scan P g job (f' - dur) (cells_down (nresources P) dur) = Some False"
        if "fin \<le> f'" "f' < f" for f'
      proof (cases "f' = fin")
        case True
        then show ?thesis using Some False by simp
      next
        case False
        then show ?thesis using IH that by simp
      qed
      then show ?thesis using IH by simp
    qed
  qed
qed

lemma move_start_Ok:
  "move_start P job dur st = Ok s \<Longrightarrow>
   s \<le> st \<and> 0 \<le> s \<and>
   scan P (capacities P) job s (cells_up (nresources P) dur) = Some True \<and>
   (\<forall>s'. s < s' \<and> s' \<le> st \<longrightarrow>
      scan P (capacities P) job s' (cells_up (nresources P) dur) = Some False)"
proof (induction P job dur st rule: move_start.induct)
  case (1 P job dur st)
  show ?case
  proof (cases "scan P (capacities P) job st (cells_up (nresources P) dur)")
    case None
    with "1.prems" show ?thesis by (simp add: move_start.simps[of P job dur st])
  next
    case (Some b)
    show ?thesis
    proof (cases b)
      case True
      with Some "1.prems" show ?thesis
        by (auto simp add: move_start.simps[of P job dur st] split: if_splits)
    next
      case False
      with Some "1.prems" have *: "\<not> st - 1 < 0" "move_start P job dur (st - 1) = Ok s"
        by (simp_all add: move_start.simps[of P job dur st] split: if_splits)
      have IH: "s \<le> st - 1 \<and> 0 \<le> s \<and>
        scan P (capacities P) job s (cells_up (nresources P) dur) = Some True \<and>
        (\<forall>s'. s < s' \<and> s' \<le> st - 1 \<longrightarrow>
           scan P (capacities P) job s' (cells_up (nresources P) dur) = Some False)"
        using "1.IH" Some False * by simp
      have "scan P (capacities P) job s' (cells_up (nresources P) dur) = Some False"
        if "s < s'" "s' \<le> st" for s'
      proof (cases "s' = st")
        case True
        then show ?thesis using Some False by simp
      next
        case False
        then show ?thesis using IH that by simp
      qed
      then show ?thesis using IH by simp
    qed
  qed
qed

lemma ef_loop_invariant:
  assumes run: "ef_loop P ef q = Some (Ok ef')" and init: "I ef q"
    and step: "\<And>ef job q ef1 q1. I ef (job # q) \<Longrightarrow> ef_visit P job (ef, q) = Ok (ef1, q1) \<Longrightarrow> I ef1 q1"
  shows "I ef' []"
proof -
  let ?Q = "\<lambda>x r. case x of ((P', ef), q) \<Rightarrow> P' = P \<longrightarrow> r = Ok ef' \<longrightarrow> I ef q \<longrightarrow> I ef' []"
  have "?Q ((P, ef), q) (Ok ef')"
  proof (rule ef_loop.raw_induct[where Pa = ?Q, OF _ run], goal_cases)
    case (1 f P' ef q r)
    show ?case
    proof (clarify)
      assume r: "r = Ok ef'" and I: "I ef q" and P': "P' = P"
      show "I ef' []"
      proof (cases q)
        case Nil
        with 1(2) r I show ?thesis by simp
      next
        case (Cons job q')
        show ?thesis
        proof (cases "ef_visit P job (ef, q')")
          case (Ok x)
          obtain ef1 q1 where x: "x = (ef1, q1)" by (cases x)
          from 1(2) Cons Ok x P' have "f P ef1 q1 = Some r" by simp
          from 1(1)[OF this] r step[OF I[unfolded Cons] Ok[unfolded x]] show ?thesis by simp
        next
          case ReturnFalse
          with 1(2) Cons r P' show ?thesis by simp
        next
          case Fault
          with 1(2) Cons r P' show ?thesis by simp
        qed
      qed
    qed
  qed
  with init show ?thesis by simp
qed


lemma ef_succs_Ok:
  assumes "ef_succs P job is (ef, q) = Ok (ef1, q1)"
  shows "length ef1 = length ef \<and>
     q1 = q @ map (\<lambda>i. successors P ! job ! i) is \<and>
     (\<forall>j<length ef. ef ! j \<le> ef1 ! j) \<and>
     (\<forall>j<length ef. j \<notin> (\<lambda>i. successors P ! job ! i) ` set is \<longrightarrow> ef1 ! j = ef ! j) \<and>
     (\<forall>i\<in>set is. job < length (successors P) \<and> i < length (successors P ! job) \<and>
         successors P ! job ! i < length ef \<and> successors P ! job ! i < length (durations P)) \<and>
     ((\<forall>j<length ef. 0 \<le> ef ! j) \<longrightarrow>
          (\<forall>i\<in>set is. durations P ! (successors P ! job ! i) \<le> ef1 ! (successors P ! job ! i)))"
  using assms
proof (induction "is" arbitrary: ef q)
  case Nil
  then show ?case by simp
next
  case (Cons i "is")
  define s where "s = successors P ! job ! i"
  define e where "e = ef ! job"
  define ds where "ds = durations P ! s"
  define ef2 where "ef2 = (if e + ds > ef ! s then ef[s := e + ds] else ef)"
  from Cons.prems have b: "job < length (successors P)" "i < length (successors P ! job)"
    "job < length ef" "s < length (durations P)" "s < length ef"
    and rec: "ef_succs P job is (ef2, q @ [s]) = Ok (ef1, q1)"
    by (auto simp: rbind_Ok chk_Ok rd_Some s_def e_def ds_def ef2_def)
  have len2: "length ef2 = length ef" by (simp add: ef2_def)
  have mono2: "ef ! j \<le> ef2 ! j" if "j < length ef" for j
    using that by (cases "j = s") (auto simp: ef2_def)
  have same2: "ef2 ! j = ef ! j" if "j \<noteq> s" for j
    using that by (auto simp: ef2_def)
  have s2: "0 \<le> e \<Longrightarrow> ds \<le> ef2 ! s"
    using b by (auto simp: ef2_def)
  note IH = Cons.IH[OF rec, unfolded len2]
  have 1: "length ef1 = length ef" using IH by simp
  have 2: "q1 = q @ map (\<lambda>i. successors P ! job ! i) (i # is)" using IH by (simp add: s_def)
  have 3: "\<forall>j<length ef. ef ! j \<le> ef1 ! j"
  proof (intro allI impI)
    fix j assume j: "j < length ef"
    have "ef ! j \<le> ef2 ! j" using mono2 j by simp
    also have "\<dots> \<le> ef1 ! j" using IH j by simp
    finally show "ef ! j \<le> ef1 ! j" .
  qed
  have 4: "\<forall>j<length ef. j \<notin> (\<lambda>i. successors P ! job ! i) ` set (i # is) \<longrightarrow> ef1 ! j = ef ! j"
  proof (intro allI impI)
    fix j assume j: "j < length ef" and n: "j \<notin> (\<lambda>i. successors P ! job ! i) ` set (i # is)"
    then have "j \<noteq> s" "j \<notin> (\<lambda>i. successors P ! job ! i) ` set is" by (auto simp: s_def)
    then show "ef1 ! j = ef ! j" using IH j same2 by simp
  qed
  have 5: "\<forall>i\<in>set (i # is). job < length (successors P) \<and> i < length (successors P ! job) \<and>
         successors P ! job ! i < length ef \<and> successors P ! job ! i < length (durations P)"
    using IH b by (auto simp: s_def)
  have 6: "(\<forall>j<length ef. 0 \<le> ef ! j) \<longrightarrow>
          (\<forall>i\<in>set (i # is). durations P ! (successors P ! job ! i) \<le> ef1 ! (successors P ! job ! i))"
  proof (intro impI ballI)
    fix i' assume nn: "\<forall>j<length ef. 0 \<le> ef ! j" and i': "i' \<in> set (i # is)"
    have nn2: "\<forall>j<length ef. 0 \<le> ef2 ! j"
      using nn mono2 by (meson order_trans)
    show "durations P ! (successors P ! job ! i') \<le> ef1 ! (successors P ! job ! i')"
    proof (cases "i' \<in> set is")
      case True
      then show ?thesis using IH nn2 by simp
    next
      case False
      with i' have "i' = i" by simp
      moreover have "ds \<le> ef2 ! s" using s2 nn b by (simp add: e_def)
      moreover have "ef2 ! s \<le> ef1 ! s" using IH b by simp
      ultimately show ?thesis by (simp add: s_def ds_def)
    qed
  qed
  from 1 2 3 4 5 6 show ?case by blast
qed

lemma ls_preds_Ok:
  assumes "ls_preds P job ps (ls, q) = Ok (ls1, q1)"
  shows "length ls1 = length ls \<and>
     q1 = q @ ps \<and>
     (\<forall>j<length ls. ls1 ! j \<le> ls ! j) \<and>
     (\<forall>j<length ls. j \<notin> set ps \<longrightarrow> ls1 ! j = ls ! j) \<and>
     (\<forall>p\<in>set ps. p < length ls \<and> p < length (durations P)) \<and>
     (\<forall>h. (\<forall>j<length ls. ls ! j \<le> h) \<longrightarrow>
          (\<forall>p\<in>set ps. ls1 ! p + durations P ! p \<le> h))"
  using assms
proof (induction ps arbitrary: ls q)
  case Nil
  then show ?case by simp
next
  case (Cons p ps)
  define l where "l = ls ! job"
  define dp where "dp = durations P ! p"
  define ls2 where "ls2 = (if l - dp < ls ! p then ls[p := l - dp] else ls)"
  from Cons.prems have b: "job < length ls" "p < length (durations P)" "p < length ls"
    and rec: "ls_preds P job ps (ls2, q @ [p]) = Ok (ls1, q1)"
    by (auto simp: rbind_Ok chk_Ok rd_Some l_def dp_def ls2_def)
  have len2: "length ls2 = length ls" by (simp add: ls2_def)
  have mono2: "ls2 ! j \<le> ls ! j" if "j < length ls" for j
    using that by (cases "j = p") (auto simp: ls2_def)
  have same2: "ls2 ! j = ls ! j" if "j \<noteq> p" for j
    using that by (auto simp: ls2_def)
  have s2: "ls2 ! p + dp \<le> l"
    using b by (auto simp: ls2_def)
  note IH = Cons.IH[OF rec, unfolded len2]
  have 1: "length ls1 = length ls" using IH by simp
  have 2: "q1 = q @ (p # ps)" using IH by simp
  have 3: "\<forall>j<length ls. ls1 ! j \<le> ls ! j"
  proof (intro allI impI)
    fix j assume j: "j < length ls"
    have "ls1 ! j \<le> ls2 ! j" using IH j by simp
    also have "\<dots> \<le> ls ! j" using mono2 j by simp
    finally show "ls1 ! j \<le> ls ! j" .
  qed
  have 4: "\<forall>j<length ls. j \<notin> set (p # ps) \<longrightarrow> ls1 ! j = ls ! j"
    using IH same2 by simp
  have 5: "\<forall>p\<in>set (p # ps). p < length ls \<and> p < length (durations P)"
    using IH b by simp
  have 6: "\<forall>h. (\<forall>j<length ls. ls ! j \<le> h) \<longrightarrow>
          (\<forall>p\<in>set (p # ps). ls1 ! p + durations P ! p \<le> h)"
  proof (intro allI impI ballI)
    fix h p' assume nn: "\<forall>j<length ls. ls ! j \<le> h" and p': "p' \<in> set (p # ps)"
    have nn2: "\<forall>j<length ls. ls2 ! j \<le> h"
      using nn mono2 by (meson order_trans)
    show "ls1 ! p' + durations P ! p' \<le> h"
    proof (cases "p' \<in> set ps")
      case True
      then show ?thesis using IH nn2 by simp
    next
      case False
      with p' have "p' = p" by simp
      moreover have "ls1 ! p \<le> ls2 ! p" using IH b by simp
      moreover have "l \<le> h" using nn b by (simp add: l_def)
      ultimately show ?thesis using s2 by (simp add: dp_def)
    qed
  qed
  from 1 2 3 4 5 6 show ?case by blast
qed

lemma ef_visit_Ok:
  assumes "ef_visit P job (ef, q) = Ok (ef1, q1)"
  shows "\<exists>e' ns. job < length (durations P) \<and> job < length ef \<and> job < length (nsuccessors P) \<and>
     ns = nsuccessors P ! job \<and>
     move_finish P (capacities P) job (durations P ! job) (ef ! job) = Ok e' \<and>
     ef_succs P job [0..<ns] (ef[job := e'], q) = Ok (ef1, q1)"
  using assms by (auto simp: ef_visit_def rbind_Ok chk_Ok rd_Some)

lemma ls_visit_Ok:
  assumes "ls_visit P job (ls, q) = Ok (ls1, q1)"
  shows "\<exists>l'. job < length (durations P) \<and> job < length ls \<and> job < length (predecessors P) \<and>
     move_start P job (durations P ! job) (ls ! job) = Ok l' \<and>
     ls_preds P job (predecessors P ! job) (ls[job := l'], q) = Ok (ls1, q1)"
  using assms by (auto simp: ls_visit_def rbind_Ok chk_Ok rd_Some)

lemma ls_loop_invariant:
  assumes run: "ls_loop P ls q = Some (Ok ls')" and init: "I ls q"
    and step: "\<And>ls job q ls1 q1. I ls (job # q) \<Longrightarrow> ls_visit P job (ls, q) = Ok (ls1, q1) \<Longrightarrow> I ls1 q1"
  shows "I ls' []"
proof -
  let ?Q = "\<lambda>x r. case x of ((P', ls), q) \<Rightarrow> P' = P \<longrightarrow> r = Ok ls' \<longrightarrow> I ls q \<longrightarrow> I ls' []"
  have "?Q ((P, ls), q) (Ok ls')"
  proof (rule ls_loop.raw_induct[where Pa = ?Q, OF _ run], goal_cases)
    case (1 f P' ls q r)
    show ?case
    proof (clarify)
      assume r: "r = Ok ls'" and I: "I ls q" and P': "P' = P"
      show "I ls' []"
      proof (cases q)
        case Nil
        with 1(2) r I show ?thesis by simp
      next
        case (Cons job q')
        show ?thesis
        proof (cases "ls_visit P job (ls, q')")
          case (Ok x)
          obtain ls1 q1 where x: "x = (ls1, q1)" by (cases x)
          from 1(2) Cons Ok x P' have "f P ls1 q1 = Some r" by simp
          from 1(1)[OF this] r step[OF I[unfolded Cons] Ok[unfolded x]] show ?thesis by simp
        next
          case ReturnFalse
          with 1(2) Cons r P' show ?thesis by simp
        next
          case Fault
          with 1(2) Cons r P' show ?thesis by simp
        qed
      qed
    qed
  qed
  with init show ?thesis by simp
qed


subsection \<open>What a completed preprocessing pass leaves\<close>



section \<open>Sampling and selecting\<close>


















section \<open>The first candidate finish\<close>




section \<open>A visit of the utilisation pass\<close>




section \<open>The preprocessing passes on the instances\<close>


lemma ef_pass_inst_varying: "ef_pass (inst_varying 5) = Some (Ok [0, 3, 3])"
  by code_simp

lemma ls_pass_inst_varying: "ls_pass (inst_varying 5) = Some (Ok [1, 1, 5])"
  by code_simp



lemma ef_pass_inst_diamond: "ef_pass inst_diamond = Some (Ok [0, 3, 3, 3])"
  by code_simp

lemma ls_pass_inst_diamond: "ls_pass inst_diamond = Some (Ok [5, 5, 5, 8])"
  by code_simp

lemma ru_pass_inst_diamond:
  "ru_pass inst_diamond [0, 3, 3, 3] [5, 5, 5, 8] ru0 =
   Some (Ok [clamp (dadd (Fin 0) (dmul OMEGA2 (clamp (dadd (Fin (3 / 20)) (dmul OMEGA2 (ru0 0)))))),
             clamp (dadd (Fin (3 / 20)) (dmul OMEGA2 (ru0 0))),
             clamp (dadd (Fin (3 / 20)) (dmul OMEGA2 (ru0 0))), Fin 0])"
  apply code_simp
  apply (simp add: clamp_def OMEGA2_def of_rat_divide of_rat_mult)
  done

section \<open>The instances are well-formed\<close>

lemma less_3_cases: "j < (3::nat) \<longleftrightarrow> j = 0 \<or> j = 1 \<or> j = 2"
  by auto


lemma acyclic_increasing:
  assumes "\<And>a b. (a, b) \<in> r \<Longrightarrow> a < (b :: nat)"
  shows "acyclic r"
proof -
  have "r \<subseteq> less_than" using assms by auto
  then have "wf r" by (rule wf_subset[OF wf_less_than])
  then show ?thesis by (rule wf_acyclic)
qed

lemma prec_rel_inst_varying: "prec_rel (inst_varying h) = {(0, 1), (1, 2)}"
  by (auto simp: prec_rel_def inst_varying_def less_3_cases)

lemma succ_rel_inst_varying: "succ_rel (inst_varying h) = {(0, 1), (1, 2)}"
  by (auto simp: succ_rel_def inst_varying_def less_3_cases)

lemma wf_inst_varying: "wf_problem (inst_varying 5)"
proof -
  let ?r = "{(0, 1), (1, 2)} :: (nat \<times> nat) set"
  have a: "acyclic ?r" by (rule acyclic_increasing) auto
  have t: "(0, 1) \<in> ?r\<^sup>+" "(1, 2) \<in> ?r\<^sup>+" by auto
  then have t2: "(0, 2) \<in> ?r\<^sup>+" by (rule trancl_trans)
  have shape: "2 \<le> njobs (inst_varying 5)" "0 < horizon (inst_varying 5)"
    "length (nsuccessors (inst_varying 5)) = njobs (inst_varying 5)"
    "length (successors (inst_varying 5)) = njobs (inst_varying 5)"
    "length (predecessors (inst_varying 5)) = njobs (inst_varying 5)"
    "length (durations (inst_varying 5)) = njobs (inst_varying 5)"
    "length (requests (inst_varying 5)) = njobs (inst_varying 5)"
    "length (capacities (inst_varying 5)) = nresources (inst_varying 5)"
    "durations (inst_varying 5) ! 0 = 0"
    "durations (inst_varying 5) ! (njobs (inst_varying 5) - 1) = 0"
    by (simp_all add: inst_varying_def)
  have q: "\<forall>j<njobs (inst_varying 5). nsuccessors (inst_varying 5) ! j = length (successors (inst_varying 5) ! j)"
    "\<forall>j<njobs (inst_varying 5). \<forall>p\<in>set (predecessors (inst_varying 5) ! j). p < njobs (inst_varying 5)"
    "\<forall>j<njobs (inst_varying 5). 0 \<le> durations (inst_varying 5) ! j"
    "\<forall>j<njobs (inst_varying 5). length (requests (inst_varying 5) ! j) = nresources (inst_varying 5) \<and>
        (\<forall>k<nresources (inst_varying 5). length (requests (inst_varying 5) ! j ! k) = nat (durations (inst_varying 5) ! j) \<and>
           (\<forall>r\<in>set (requests (inst_varying 5) ! j ! k). 0 \<le> r))"
    "\<forall>k<nresources (inst_varying 5). length (capacities (inst_varying 5) ! k) = nat (horizon (inst_varying 5)) \<and>
        (\<forall>c\<in>set (capacities (inst_varying 5) ! k). 0 \<le> c)"
    by (auto simp: inst_varying_def less_3_cases)
  have r: "\<forall>j<njobs (inst_varying 5). j \<noteq> 0 \<longrightarrow> (0, j) \<in> (prec_rel (inst_varying 5))\<^sup>+"
    "\<forall>j<njobs (inst_varying 5). j \<noteq> njobs (inst_varying 5) - 1 \<longrightarrow> (j, njobs (inst_varying 5) - 1) \<in> (prec_rel (inst_varying 5))\<^sup>+"
    unfolding prec_rel_inst_varying using t t2 by (auto simp: inst_varying_def less_3_cases)
  show ?thesis
    unfolding wf_problem_def using shape q r a
    by (simp only: prec_rel_inst_varying succ_rel_inst_varying simp_thms)
qed








section \<open>Steps of a pass\<close>
























section \<open>A whole pass and the sequence of passes\<close>








section \<open>The diamond instance solved\<close>








section \<open>The instance with the longest horizon\<close>





lemma huge_row_nth: "i < nat no_makespan \<Longrightarrow> huge_row ! i = (if i = 0 then 2 else 1)"
  by (cases i) (auto simp: huge_row_def)


lemma inst_huge_sel:
  "njobs inst_huge = 3" "horizon inst_huge = no_makespan" "nresources inst_huge = 1"
  "nsuccessors inst_huge = [1, 1, 0]" "successors inst_huge = [[1], [2], []]"
  "predecessors inst_huge = [[], [0], [1]]" "durations inst_huge = [0, no_makespan, 0]"
  "requests inst_huge = [[[]], [huge_row], [[]]]" "capacities inst_huge = [huge_row]"
  by (simp_all add: inst_huge_def)




























lemma horizon_inst_huge: "horizon inst_huge = no_makespan"
  by (simp add: inst_huge_sel)


section \<open>The order-sensitive instance run\<close>









section \<open>The tournament of a step\<close>






section \<open>The utilisation values\<close>






section \<open>The utilisation formula\<close>

lemma ru_claimed_inst_diamond:
  "ru_claimed inst_diamond [0, 3, 3, 3] [5, 5, 5, 8] [r0, r1, r2, r3] (Suc 0) =
     clamp (dadd (Fin (3 / 20)) (dmul OMEGA2 (dadd r3 (Fin 0))))"
  "ru_claimed inst_diamond [0, 3, 3, 3] [5, 5, 5, 8] [r0, r1, r2, r3] 0 =
     clamp (dadd (Fin 0) (dmul OMEGA2 (dadd r1 (dadd r2 (Fin 0)))))"
   apply code_simp
   apply (simp add: clamp_def OMEGA2_def of_rat_divide of_rat_mult)
  apply code_simp
  apply (simp add: clamp_def OMEGA2_def of_rat_divide of_rat_mult)
  done

text \<open>
  C4. In the diamond instance the pass does not compute the stated formula, whatever the
  array \<^verbatim>\<open>ru\<close> held when it was allocated: the values it leaves for jobs 0 and 1 cannot both
  be what the formula gives from the final array. With zeroes in the fresh array it leaves
  \<open>0.09\<close> for job 0, where the formula gives \<open>0.6 \<cdot> (0.15 + 0.15) = 0.18\<close>: the loop adds
  \<^verbatim>\<open>ru[0]\<close> and \<^verbatim>\<open>ru[1]\<close>, not the values of the successors 1 and 2.
\<close>

theorem ru_pass_misses_formula:
  "ef_pass inst_diamond = Some (Ok [0, 3, 3, 3]) \<and>
   ls_pass inst_diamond = Some (Ok [5, 5, 5, 8]) \<and>
   (\<exists>ru. ru_pass inst_diamond [0, 3, 3, 3] [5, 5, 5, 8] ru0 = Some (Ok ru) \<and>
      \<not> (ru ! 0 = ru_claimed inst_diamond [0, 3, 3, 3] [5, 5, 5, 8] ru 0 \<and>
         ru ! 1 = ru_claimed inst_diamond [0, 3, 3, 3] [5, 5, 5, 8] ru 1)) \<and>
   ru_pass inst_diamond [0, 3, 3, 3] [5, 5, 5, 8] (\<lambda>j. Fin 0) =
     Some (Ok [Fin (9 / 100), Fin (3 / 20), Fin (3 / 20), Fin 0]) \<and>
   ru_claimed inst_diamond [0, 3, 3, 3] [5, 5, 5, 8] [Fin (9 / 100), Fin (3 / 20), Fin (3 / 20), Fin 0] 0 =
     Fin (9 / 50)"
proof -
  define r1 where "r1 = clamp (dadd (Fin (3 / 20)) (dmul OMEGA2 (ru0 0)))"
  define r0 where "r0 = clamp (dadd (Fin 0) (dmul OMEGA2 r1))"
  have run: "ru_pass inst_diamond [0, 3, 3, 3] [5, 5, 5, 8] ru0 = Some (Ok [r0, r1, r1, Fin 0])"
    by (simp add: ru_pass_inst_diamond r0_def r1_def)
  have c1: "ru_claimed inst_diamond [0, 3, 3, 3] [5, 5, 5, 8] [r0, r1, r1, Fin 0] 1 = Fin (3 / 20)"
    by (simp add: ru_claimed_inst_diamond clamp_def OMEGA2_def)
  have "r0 \<noteq> ru_claimed inst_diamond [0, 3, 3, 3] [5, 5, 5, 8] [r0, r1, r1, Fin 0] 0"
    if "r1 = Fin (3 / 20)"
    by (simp add: ru_claimed_inst_diamond(2) r0_def that clamp_def OMEGA2_def)
  with c1 have "\<not> ([r0, r1, r1, Fin 0] ! 0 = ru_claimed inst_diamond [0, 3, 3, 3] [5, 5, 5, 8] [r0, r1, r1, Fin 0] 0 \<and>
         [r0, r1, r1, Fin 0] ! 1 = ru_claimed inst_diamond [0, 3, 3, 3] [5, 5, 5, 8] [r0, r1, r1, Fin 0] 1)"
    by auto
  with run have ex: "\<exists>ru. ru_pass inst_diamond [0, 3, 3, 3] [5, 5, 5, 8] ru0 = Some (Ok ru) \<and>
      \<not> (ru ! 0 = ru_claimed inst_diamond [0, 3, 3, 3] [5, 5, 5, 8] ru 0 \<and>
         ru ! 1 = ru_claimed inst_diamond [0, 3, 3, 3] [5, 5, 5, 8] ru 1)"
    by blast
  have z: "ru_pass inst_diamond [0, 3, 3, 3] [5, 5, 5, 8] (\<lambda>j. Fin 0) =
     Some (Ok [Fin (9 / 100), Fin (3 / 20), Fin (3 / 20), Fin 0])"
    by (simp add: ru_pass_inst_diamond clamp_def OMEGA2_def)
  have c0: "ru_claimed inst_diamond [0, 3, 3, 3] [5, 5, 5, 8] [Fin (9 / 100), Fin (3 / 20), Fin (3 / 20), Fin 0] 0 =
     Fin (9 / 50)"
    by (simp add: ru_claimed_inst_diamond(2) clamp_def OMEGA2_def)
  from ex z c0 ef_pass_inst_diamond ls_pass_inst_diamond show ?thesis by blast
qed

section \<open>Placing the winner of a step\<close>






section \<open>Infeasible instances found while preprocessing\<close>



section \<open>The bounds left by preprocessing\<close>

lemma ef_pass_covers:
  assumes run: "ef_pass P = Some (Ok ef)" and d0: "durations P ! 0 \<le> 0" and n: "0 < njobs P"
    and reach: "(0, j) \<in> (succ_rel P)\<^sup>*"
  shows "j < njobs P \<and> durations P ! j \<le> ef ! j"
proof -
  let ?I = "\<lambda>ef q. length ef = njobs P \<and> (\<forall>j<njobs P. 0 \<le> ef ! j) \<and>
     (\<exists>V. 0 \<in> V \<and> set q \<subseteq> V \<and> (\<forall>j\<in>V. j < njobs P \<and> durations P ! j \<le> ef ! j) \<and>
          (\<forall>j\<in>V. j \<in> set q \<or> (\<forall>s. (j, s) \<in> succ_rel P \<longrightarrow> s \<in> V)))"
  have "?I ef []"
  proof (rule ef_loop_invariant[where I = ?I, OF run[unfolded ef_pass_def]], goal_cases)
    case 1
    show ?case using d0 n by (auto intro!: exI[of _ "{0}"])
  next
    case (2 ef job q ef1 q1)
    then obtain V where len: "length ef = njobs P" and nn: "\<forall>j<njobs P. 0 \<le> ef ! j"
      and V: "0 \<in> V" "set (job # q) \<subseteq> V" "\<forall>j\<in>V. j < njobs P \<and> durations P ! j \<le> ef ! j"
        "\<forall>j\<in>V. j \<in> set (job # q) \<or> (\<forall>s. (j, s) \<in> succ_rel P \<longrightarrow> s \<in> V)"
      by blast
    from ef_visit_Ok[OF 2(2)] obtain e' where b: "job < length ef"
      and mf: "move_finish P (capacities P) job (durations P ! job) (ef ! job) = Ok e'"
      and su: "ef_succs P job [0..<nsuccessors P ! job] (ef[job := e'], q) = Ok (ef1, q1)"
      by blast
    have e': "ef ! job \<le> e'" using move_finish_Ok[OF mf] by simp
    let ?ef2 = "ef[job := e']"
    let ?S = "(\<lambda>i. successors P ! job ! i) ` set [0..<nsuccessors P ! job]"
    have mono2: "ef ! j \<le> ?ef2 ! j" if "j < njobs P" for j
      using that e' len by (cases "j = job") auto
    have nn2: "\<forall>j<length ?ef2. 0 \<le> ?ef2 ! j"
      using nn mono2 len by (metis length_list_update order_trans)
    note suo = ef_succs_Ok[OF su]
    have len1: "length ef1 = njobs P" using suo len by simp
    have mono1: "ef ! j \<le> ef1 ! j" if "j < njobs P" for j
    proof -
      have "?ef2 ! j \<le> ef1 ! j" using suo that len by simp
      with mono2[OF that] show ?thesis by simp
    qed
    have nn1: "\<forall>j<njobs P. 0 \<le> ef1 ! j" using nn mono1 by (meson order_trans)
    have S: "\<forall>s\<in>?S. s < njobs P \<and> durations P ! s \<le> ef1 ! s"
      using suo nn2 len by auto
    let ?V = "V \<union> ?S"
    have a: "\<forall>j\<in>?V. j < njobs P \<and> durations P ! j \<le> ef1 ! j"
    proof
      fix j assume "j \<in> ?V"
      then show "j < njobs P \<and> durations P ! j \<le> ef1 ! j"
      proof
        assume "j \<in> V"
        then have "j < njobs P" "durations P ! j \<le> ef ! j" using V by simp_all
        with mono1[of j] show ?thesis by simp
      next
        assume "j \<in> ?S" with S show ?thesis by blast
      qed
    qed
    have q1: "set q1 = set q \<union> ?S" using suo by auto
    have c: "j \<in> set q1 \<or> (\<forall>s. (j, s) \<in> succ_rel P \<longrightarrow> s \<in> ?V)" if j: "j \<in> ?V" for j
    proof (cases "j = job")
      case True
      then show ?thesis by (auto simp: succ_rel_def)
    next
      case False
      show ?thesis
      proof (cases "j \<in> V")
        case True
        with V(4) False have "j \<in> set q \<or> (\<forall>s. (j, s) \<in> succ_rel P \<longrightarrow> s \<in> V)" by auto
        then show ?thesis using q1 by auto
      next
        case False
        with j have "j \<in> ?S" by simp
        then show ?thesis using q1 by simp
      qed
    qed
    have "0 \<in> ?V" "set q1 \<subseteq> ?V" using V q1 by auto
    with a c have "\<exists>V. 0 \<in> V \<and> set q1 \<subseteq> V \<and> (\<forall>j\<in>V. j < njobs P \<and> durations P ! j \<le> ef1 ! j) \<and>
          (\<forall>j\<in>V. j \<in> set q1 \<or> (\<forall>s. (j, s) \<in> succ_rel P \<longrightarrow> s \<in> V))"
      by (intro exI[of _ ?V]) blast
    with len1 nn1 show ?case by simp
  qed
  then obtain V where V: "0 \<in> V" "\<forall>j\<in>V. j < njobs P \<and> durations P ! j \<le> ef ! j"
    "\<forall>j\<in>V. \<forall>s. (j, s) \<in> succ_rel P \<longrightarrow> s \<in> V" by auto
  from reach have "j \<in> V"
    by (induction rule: rtrancl_induct) (use V in auto)
  with V show ?thesis by simp
qed

lemma ls_pass_covers:
  assumes run: "ls_pass P = Some (Ok ls)" and d0: "durations P ! (njobs P - 1) \<le> 0"
    and reach: "(j, njobs P - 1) \<in> (prec_rel P)\<^sup>*"
  shows "j < njobs P \<and> ls ! j + durations P ! j \<le> horizon P"
proof -
  let ?I = "\<lambda>ls q. length ls = njobs P \<and> (\<forall>j<njobs P. ls ! j \<le> horizon P) \<and>
     (\<exists>V. njobs P - 1 \<in> V \<and> set q \<subseteq> V \<and> (\<forall>j\<in>V. j < njobs P \<and> ls ! j + durations P ! j \<le> horizon P) \<and>
          (\<forall>j\<in>V. j \<in> set q \<or> (\<forall>p. (p, j) \<in> prec_rel P \<longrightarrow> p \<in> V)))"
  from run have n: "0 < njobs P" and run': "ls_loop P (replicate (njobs P) (horizon P)) [njobs P - 1] = Some (Ok ls)"
    by (auto simp: ls_pass_def split: if_splits)
  have "?I ls []"
  proof (rule ls_loop_invariant[where I = ?I, OF run'], goal_cases)
    case 1
    show ?case using d0 n by (auto intro!: exI[of _ "{njobs P - 1}"])
  next
    case (2 ls job q ls1 q1)
    then obtain V where len: "length ls = njobs P" and nn: "\<forall>j<njobs P. ls ! j \<le> horizon P"
      and V: "njobs P - 1 \<in> V" "set (job # q) \<subseteq> V"
        "\<forall>j\<in>V. j < njobs P \<and> ls ! j + durations P ! j \<le> horizon P"
        "\<forall>j\<in>V. j \<in> set (job # q) \<or> (\<forall>p. (p, j) \<in> prec_rel P \<longrightarrow> p \<in> V)"
      by blast
    from ls_visit_Ok[OF 2(2)] obtain l' where b: "job < length ls"
      and mf: "move_start P job (durations P ! job) (ls ! job) = Ok l'"
      and su: "ls_preds P job (predecessors P ! job) (ls[job := l'], q) = Ok (ls1, q1)"
      by blast
    have l': "l' \<le> ls ! job" using move_start_Ok[OF mf] by simp
    let ?ls2 = "ls[job := l']"
    let ?S = "set (predecessors P ! job)"
    have mono2: "?ls2 ! j \<le> ls ! j" if "j < njobs P" for j
      using that l' len by (cases "j = job") auto
    have nn2: "\<forall>j<length ?ls2. ?ls2 ! j \<le> horizon P"
      using nn mono2 len by (metis length_list_update order_trans)
    note suo = ls_preds_Ok[OF su]
    have len1: "length ls1 = njobs P" using suo len by simp
    have mono1: "ls1 ! j \<le> ls ! j" if "j < njobs P" for j
    proof -
      have "ls1 ! j \<le> ?ls2 ! j" using suo that len by simp
      with mono2[OF that] show ?thesis by simp
    qed
    have nn1: "\<forall>j<njobs P. ls1 ! j \<le> horizon P" using nn mono1 by (meson order_trans)
    have S: "\<forall>s\<in>?S. s < njobs P \<and> ls1 ! s + durations P ! s \<le> horizon P"
      using suo nn2 len by auto
    let ?V = "V \<union> ?S"
    have a: "\<forall>j\<in>?V. j < njobs P \<and> ls1 ! j + durations P ! j \<le> horizon P"
    proof
      fix j assume "j \<in> ?V"
      then show "j < njobs P \<and> ls1 ! j + durations P ! j \<le> horizon P"
      proof
        assume "j \<in> V"
        then have "j < njobs P" "ls ! j + durations P ! j \<le> horizon P" using V by simp_all
        with mono1[of j] show ?thesis by simp
      next
        assume "j \<in> ?S" with S show ?thesis by simp
      qed
    qed
    have q1: "set q1 = set q \<union> ?S" using suo by auto
    have c: "j \<in> set q1 \<or> (\<forall>p. (p, j) \<in> prec_rel P \<longrightarrow> p \<in> ?V)" if j: "j \<in> ?V" for j
    proof (cases "j = job")
      case True
      then show ?thesis by (auto simp: prec_rel_def)
    next
      case False
      show ?thesis
      proof (cases "j \<in> V")
        case True
        with V(4) False have "j \<in> set q \<or> (\<forall>p. (p, j) \<in> prec_rel P \<longrightarrow> p \<in> V)" by auto
        then show ?thesis using q1 by auto
      next
        case False
        with j have "j \<in> ?S" by simp
        then show ?thesis using q1 by simp
      qed
    qed
    have "njobs P - 1 \<in> ?V" "set q1 \<subseteq> ?V" using V q1 by auto
    with a c have "\<exists>V. njobs P - 1 \<in> V \<and> set q1 \<subseteq> V \<and>
          (\<forall>j\<in>V. j < njobs P \<and> ls1 ! j + durations P ! j \<le> horizon P) \<and>
          (\<forall>j\<in>V. j \<in> set q1 \<or> (\<forall>p. (p, j) \<in> prec_rel P \<longrightarrow> p \<in> V))"
      by (intro exI[of _ ?V]) blast
    with len1 nn1 show ?case by simp
  qed
  then obtain V where V: "njobs P - 1 \<in> V" "\<forall>j\<in>V. j < njobs P \<and> ls ! j + durations P ! j \<le> horizon P"
    "\<forall>j\<in>V. \<forall>p. (p, j) \<in> prec_rel P \<longrightarrow> p \<in> V" by auto
  from reach have "j \<in> V"
    by (induction rule: converse_rtrancl_induct) (use V in auto)
  with V show ?thesis by simp
qed

text \<open>
  C6. For a well-formed problem, when neither preprocessing pass makes \<^verbatim>\<open>solve\<close> return,
  every job \<open>j\<close> has \<open>ef[j] \<ge> durations[j]\<close> and \<open>ls[j] + durations[j] \<le> horizon\<close>.
\<close>

theorem preprocessing_bounds:
  assumes "wf_problem P" and "ef_pass P = Some (Ok ef)" and "ls_pass P = Some (Ok ls)"
  shows "\<forall>j<njobs P. durations P ! j \<le> ef ! j \<and> ls ! j + durations P ! j \<le> horizon P"
proof (intro allI impI)
  fix j assume j: "j < njobs P"
  from assms(1) have w: "0 < njobs P" "durations P ! 0 \<le> 0" "durations P ! (njobs P - 1) \<le> 0"
    "succ_rel P = prec_rel P" "j \<noteq> 0 \<longrightarrow> (0, j) \<in> (prec_rel P)\<^sup>+"
    "j \<noteq> njobs P - 1 \<longrightarrow> (j, njobs P - 1) \<in> (prec_rel P)\<^sup>+"
    using j by (auto simp: wf_problem_def)
  have "(0, j) \<in> (succ_rel P)\<^sup>*" using w(4,5) by (cases "j = 0") auto
  from ef_pass_covers[OF assms(2) w(2) w(1) this] have 1: "durations P ! j \<le> ef ! j" by simp
  have "(j, njobs P - 1) \<in> (prec_rel P)\<^sup>*" using w(6) by (cases "j = njobs P - 1") auto
  from ls_pass_covers[OF assms(3) w(3) this] have 2: "ls ! j + durations P ! j \<le> horizon P" by simp
  from 1 2 show "durations P ! j \<le> ef ! j \<and> ls ! j + durations P ! j \<le> horizon P" by simp
qed

theorem preprocessing_bounds_witness:
  "wf_problem (inst_varying 5) \<and> ef_pass (inst_varying 5) = Some (Ok [0, 3, 3]) \<and>
   ls_pass (inst_varying 5) = Some (Ok [1, 1, 5]) \<and>
   durations (inst_varying 5) ! 1 \<le> [0, 3, 3] ! 1 \<and>
   [1, 1, 5] ! 1 + durations (inst_varying 5) ! 1 \<le> horizon (inst_varying 5)"
  using preprocessing_bounds[OF wf_inst_varying ef_pass_inst_varying ls_pass_inst_varying]
    wf_inst_varying ef_pass_inst_varying ls_pass_inst_varying
  by (simp add: inst_varying_def)

section \<open>The eligible set is never empty\<close>





section \<open>Precedence in the schedule returned\<close>




section \<open>Capacities in the schedule returned\<close>




section \<open>When solve returns true\<close>




end
